theory Spec2Isabelle
  imports Main "HOL-Library.Word" "HOL-Library.Multiset"
begin

text \<open>
  A model of the page component \<open>src/app/page.tsx\<close> of the goal agent dashboard: its
  formatting helpers, the derived log feed, and the run controller, in which \<open>startAgent\<close>
  is an asynchronous function whose invocations are suspended at their two delays and
  resumed by timers, between the events of the user.
\<close>

section \<open>Strings of the page\<close>

text \<open>
  A JavaScript string is a sequence of 16-bit code units. \<open>js\<close> writes an ASCII literal
  of the source as such a sequence.
\<close>

type_synonym jsstring = "16 word list"

definition js :: "string \<Rightarrow> jsstring" where
  "js s = map of_char s"

text \<open>
  \<open>String.prototype.trim\<close> removes leading and trailing white space and line
  terminators. The set is the one of ECMAScript: TAB, VT, FF, SP, NBSP, ZWNBSP, the
  Unicode space separators, LF, CR, LS and PS. All of them are single code units.
\<close>

definition is_js_space :: "16 word \<Rightarrow> bool" where
  "is_js_space c \<longleftrightarrow>
     c = 0x0009 \<or> c = 0x000A \<or> c = 0x000B \<or> c = 0x000C \<or> c = 0x000D \<or>
     c = 0x0020 \<or> c = 0x00A0 \<or> c = 0x1680 \<or> (0x2000 \<le> c \<and> c \<le> 0x200A) \<or>
     c = 0x2028 \<or> c = 0x2029 \<or> c = 0x202F \<or> c = 0x205F \<or> c = 0x3000 \<or>
     c = 0xFEFF"

definition trim :: "jsstring \<Rightarrow> jsstring" where
  "trim s = rev (dropWhile is_js_space (rev (dropWhile is_js_space s)))"

text \<open>A string is falsy exactly when it is empty: \<open>!goal.trim()\<close>.\<close>

definition falsy_str :: "jsstring \<Rightarrow> bool" where
  "falsy_str s \<longleftrightarrow> s = []"

text \<open>The words of the specification: a goal that is blank or consists only of white space.\<close>

definition blank :: "jsstring \<Rightarrow> bool" where
  "blank g \<longleftrightarrow> list_all is_js_space g"

section \<open>Data model of the agent\<close>

text \<open>
  Modelled from the spec: the type declarations of the module \<open>@/lib/agent\<close>, which the
  page imports and which is not part of the source at hand. The fields are those of the
  data model of the specification; the page reads \<open>iteration\<close>, \<open>isComplete\<close>, \<open>isStalled\<close>,
  \<open>logs\<close>, and the \<open>timestamp\<close> and \<open>topic\<close> of a log entry. Enumerations are strings at run
  time. Numbers are taken as integers: iteration counts, and time stamps in milliseconds.
  The log array of a state is held by reference (an address of the array store below),
  since the page sorts a copy of it in place.
\<close>

record AgentTask =
  task_id :: jsstring
  title :: jsstring
  detail :: jsstring
  status :: jsstring
  insights :: "jsstring list"

record AgentAssumption =
  assumption_id :: jsstring
  statement :: jsstring
  confidence :: jsstring

record AgentLog =
  log_id :: jsstring
  topic :: jsstring
  message :: jsstring
  timestamp :: int

record AgentMetrics =
  completionRate :: int
  momentum :: int
  blockedCount :: int
  focus :: jsstring

record AgentState =
  goal :: jsstring
  iteration :: int
  tasks :: "AgentTask list"
  assumptions :: "AgentAssumption list"
  logs :: nat
  metrics :: AgentMetrics
  isComplete :: bool
  isStalled :: bool
  resultSummary :: "jsstring option"

text \<open>The closed enumerations, and the string each value is at run time.\<close>

datatype AgentTaskStatus = Pending | InProgress | Completed | Blocked

datatype AgentTopic = Analysis | Plan | Execution | Reflection | Summary

datatype AgentConfidence = Low | Medium | High

fun status_str :: "AgentTaskStatus \<Rightarrow> jsstring" where
  "status_str Pending = js ''pending''"
| "status_str InProgress = js ''in-progress''"
| "status_str Completed = js ''completed''"
| "status_str Blocked = js ''blocked''"

fun topic_str :: "AgentTopic \<Rightarrow> jsstring" where
  "topic_str Analysis = js ''analysis''"
| "topic_str Plan = js ''plan''"
| "topic_str Execution = js ''execution''"
| "topic_str Reflection = js ''reflection''"
| "topic_str Summary = js ''summary''"

fun confidence_str :: "AgentConfidence \<Rightarrow> jsstring" where
  "confidence_str Low = js ''low''"
| "confidence_str Medium = js ''medium''"
| "confidence_str High = js ''high''"

text \<open>
  The functions and the constant that the page imports from \<open>@/lib/agent\<close> are parameters
  of the model. A call of \<open>stepAgent\<close> returns the next state or throws.
\<close>

record 'e agent_lib =
  initializeAgentState :: "jsstring \<Rightarrow> AgentState"
  stepAgent :: "AgentState \<Rightarrow> 'e + AgentState"
  MAX_ITERATIONS :: int

section \<open>Formatting helpers\<close>

text \<open>
  \<open>statusLabels\<close> and \<open>topicLabels\<close> are object literals, here the maps of their own
  properties: a key that the literal does not have is \<open>None\<close>.
\<close>

definition statusLabels :: "jsstring \<Rightarrow> jsstring option" where
  "statusLabels = map_of
     [(js ''pending'', js ''Pending''),
      (js ''in-progress'', js ''In Progress''),
      (js ''completed'', js ''Completed''),
      (js ''blocked'', js ''Blocked'')]"

definition topicLabels :: "jsstring \<Rightarrow> jsstring option" where
  "topicLabels = map_of
     [(js ''analysis'', js ''Analysis''),
      (js ''plan'', js ''Planning''),
      (js ''execution'', js ''Execution''),
      (js ''reflection'', js ''Reflection''),
      (js ''summary'', js ''Summary'')]"

text \<open>
  The class helpers read a property of the CSS module object \<open>styles\<close>, which is a
  parameter: \<open>styles k\<close> is the value of the property named \<open>k\<close>.
\<close>

definition confidenceClass :: "(jsstring \<Rightarrow> 'c) \<Rightarrow> jsstring \<Rightarrow> 'c" where
  "confidenceClass styles c =
     (if c = js ''high'' then styles (js ''confidenceHigh'')
      else if c = js ''medium'' then styles (js ''confidenceMedium'')
      else styles (js ''confidenceLow''))"

definition taskStatusClass :: "(jsstring \<Rightarrow> 'c) \<Rightarrow> jsstring \<Rightarrow> 'c" where
  "taskStatusClass styles s =
     (if s = js ''completed'' then styles (js ''taskStatusCompleted'')
      else if s = js ''in-progress'' then styles (js ''taskStatusActive'')
      else if s = js ''blocked'' then styles (js ''taskStatusBlocked'')
      else styles (js ''taskStatusPending''))"

definition topicClass :: "(jsstring \<Rightarrow> 'c) \<Rightarrow> jsstring \<Rightarrow> 'c" where
  "topicClass styles t =
     (if t = js ''analysis'' then styles (js ''topicAnalysis'')
      else if t = js ''plan'' then styles (js ''topicPlan'')
      else if t = js ''execution'' then styles (js ''topicExecution'')
      else if t = js ''reflection'' then styles (js ''topicReflection'')
      else styles (js ''topicSummary''))"

section \<open>The ordered log feed\<close>

text \<open>
  Arrays are mutable objects. The array store maps an address (an index of the store)
  to the contents of the array there. \<open>[...a]\<close> allocates a new array with the elements
  of \<open>a\<close>; \<open>a.sort(cmp)\<close> sorts \<open>a\<close> in place and returns \<open>a\<close>; \<open>[]\<close> allocates an empty
  array.
\<close>

type_synonym 'a store = "'a list list"

definition new_array :: "'a store \<Rightarrow> 'a list \<Rightarrow> 'a store \<times> nat" where
  "new_array h xs = (h @ [xs], length h)"

definition spread :: "'a store \<Rightarrow> nat \<Rightarrow> 'a store \<times> nat" where
  "spread h a = new_array h (h ! a)"

text \<open>
  \<open>Array.prototype.sort\<close> is stable, and it places \<open>a\<close> before \<open>b\<close> when the comparator
  is negative on \<open>(a, b)\<close>, after it when positive, and keeps their order when zero. With
  a consistent comparator that fixes the result, which a stable insertion computes.
\<close>

fun insert_by :: "('a \<Rightarrow> 'a \<Rightarrow> int) \<Rightarrow> 'a \<Rightarrow> 'a list \<Rightarrow> 'a list" where
  "insert_by cmp x [] = [x]"
| "insert_by cmp x (y # ys) =
     (if cmp x y \<le> 0 then x # y # ys else y # insert_by cmp x ys)"

definition js_sort :: "('a \<Rightarrow> 'a \<Rightarrow> int) \<Rightarrow> 'a list \<Rightarrow> 'a list" where
  "js_sort cmp xs = foldr (insert_by cmp) xs []"

definition array_sort :: "'a store \<Rightarrow> nat \<Rightarrow> ('a \<Rightarrow> 'a \<Rightarrow> int) \<Rightarrow> 'a store \<times> nat" where
  "array_sort h a cmp = (h[a := js_sort cmp (h ! a)], a)"

definition by_timestamp :: "AgentLog \<Rightarrow> AgentLog \<Rightarrow> int" where
  "by_timestamp a b = timestamp a - timestamp b"

definition orderedLogs :: "AgentLog store \<Rightarrow> AgentState option \<Rightarrow> AgentLog store \<times> nat" where
  "orderedLogs h agentState =
     (case agentState of
        None \<Rightarrow> new_array h []
      | Some s \<Rightarrow> (let (h1, copy) = spread h (logs s) in array_sort h1 copy by_timestamp))"

section \<open>The page and its run loop\<close>

text \<open>
  An invocation of \<open>startAgent\<close> is suspended at \<open>await delay(150)\<close> or at
  \<open>await delay(650)\<close>, each with the time at which its timer is due, or it has returned,
  or it has thrown and its promise is rejected.
\<close>

datatype 'e run_status = AwaitSettle nat | AwaitStep nat | Returned | Rejected 'e

text \<open>
  The locals of an invocation: the argument \<open>goal\<close>, and \<open>initial\<close> and then \<open>currentState\<close>
  in \<open>currentState\<close>. Two fields record what the invocation has done so far: \<open>pubs\<close>, the
  states it has passed to \<open>setAgentState\<close>, and \<open>calls\<close>, the states it has passed to
  \<open>stepAgent\<close>, both in order.
\<close>

record 'e run =
  goal_arg :: jsstring
  currentState :: AgentState
  run_status :: "'e run_status"
  pubs :: "AgentState list"
  calls :: "AgentState list"

text \<open>
  The component: its three state variables, the ref \<open>loopRef\<close>, the clock in
  milliseconds, and every invocation of \<open>startAgent\<close> so far.
\<close>

record 'e page =
  goalInput :: jsstring
  agentState :: "AgentState option"
  isRunning :: bool
  loopRef :: bool
  clock :: nat
  runs :: "'e run list"

definition init_page :: "'e page" where
  "init_page =
     \<lparr> goalInput = js ''Launch an ethical, autonomous onboarding assistant that accelerates user activation.'',
       agentState = None, isRunning = False, loopRef = False, clock = 0, runs = [] \<rparr>"

definition upd_run :: "nat \<Rightarrow> ('e run \<Rightarrow> 'e run) \<Rightarrow> 'e page \<Rightarrow> 'e page" where
  "upd_run i f m = m\<lparr>runs := (runs m)[i := f (runs m ! i)]\<rparr>"

text \<open>Lines 108 and 109: the code after the loop.\<close>

definition exit_loop :: "nat \<Rightarrow> 'e page \<Rightarrow> 'e page" where
  "exit_loop i m =
     upd_run i (\<lambda>r. r\<lparr>run_status := Returned\<rparr>) (m\<lparr>loopRef := False, isRunning := False\<rparr>)"

text \<open>Lines 97 and 98: the loop condition, and the wait that starts an iteration.\<close>

definition loop_test :: "nat \<Rightarrow> 'e page \<Rightarrow> 'e page" where
  "loop_test i m =
     (if loopRef m then upd_run i (\<lambda>r. r\<lparr>run_status := AwaitStep (clock m + 650)\<rparr>) m
      else exit_loop i m)"

text \<open>Lines 86 to 93: \<open>startAgent\<close> up to its first \<open>await\<close>.\<close>

definition startAgent :: "'e agent_lib \<Rightarrow> jsstring \<Rightarrow> 'e page \<Rightarrow> 'e page" where
  "startAgent lib g m =
     (if falsy_str (trim g) then m
      else
        (let initial = initializeAgentState lib g in
         m\<lparr> loopRef := False,
            agentState := Some initial,
            runs := runs m @
              [\<lparr> goal_arg = g, currentState = initial,
                 run_status = AwaitSettle (clock m + 150),
                 pubs = [initial], calls = [] \<rparr>] \<rparr>))"

text \<open>Lines 94 to 98: invocation \<open>i\<close> resumes after the settle delay.\<close>

definition after_settle :: "nat \<Rightarrow> 'e page \<Rightarrow> 'e page" where
  "after_settle i m = loop_test i (m\<lparr>loopRef := True, isRunning := True\<rparr>)"

text \<open>
  Lines 99 to 109: invocation \<open>i\<close> resumes after the step delay. When \<open>stepAgent\<close> throws,
  nothing of the function runs after the call.
\<close>

definition after_step_delay :: "'e agent_lib \<Rightarrow> nat \<Rightarrow> 'e page \<Rightarrow> 'e page" where
  "after_step_delay lib i m =
     (let r = runs m ! i in
      case stepAgent lib (currentState r) of
        Inl e \<Rightarrow>
          upd_run i (\<lambda>r. r\<lparr>run_status := Rejected e, calls := calls r @ [currentState r]\<rparr>) m
      | Inr next \<Rightarrow>
          (let m1 = upd_run i
                 (\<lambda>r. r\<lparr>currentState := next, pubs := pubs r @ [next],
                        calls := calls r @ [currentState r]\<rparr>)
                 (m\<lparr>agentState := Some next\<rparr>)
           in if isComplete next \<or> isStalled next then exit_loop i m1
              else if MAX_ITERATIONS lib \<le> iteration next then exit_loop i m1
              else loop_test i m1))"

text \<open>A timer fires: the invocation it belongs to resumes, if the timer is due.\<close>

definition fire :: "'e agent_lib \<Rightarrow> nat \<Rightarrow> 'e page \<Rightarrow> 'e page" where
  "fire lib i m =
     (if i < length (runs m) then
        (case run_status (runs m ! i) of
           AwaitSettle due \<Rightarrow> if due \<le> clock m then after_settle i m else m
         | AwaitStep due \<Rightarrow> if due \<le> clock m then after_step_delay lib i m else m
         | _ \<Rightarrow> m)
      else m)"

text \<open>Lines 114 to 117.\<close>

definition stopAgent :: "'e page \<Rightarrow> 'e page" where
  "stopAgent m = m\<lparr>loopRef := False, isRunning := False\<rparr>"

text \<open>Lines 119 to 132.\<close>

definition handleSubmit :: "'e agent_lib \<Rightarrow> 'e page \<Rightarrow> 'e page" where
  "handleSubmit lib m =
     (if isRunning m then m
      else
        (let trimmedGoal = trim (goalInput m) in
         if falsy_str trimmedGoal then m else startAgent lib trimmedGoal m))"

text \<open>Lines 160 to 185: the controls of the form as rendered from the state.\<close>

record controls =
  goal_disabled :: bool
  submit_disabled :: bool
  submit_label :: jsstring
  stop_disabled :: bool

definition render_controls :: "'e page \<Rightarrow> controls" where
  "render_controls m =
     \<lparr> goal_disabled = isRunning m,
       submit_disabled = isRunning m,
       submit_label = (if isRunning m then js ''Running'' @ [0x2026] else js ''Launch Agent''),
       stop_disabled = (\<not> isRunning m) \<rparr>"

text \<open>
  What can happen to the page: the user submits the form, clicks Stop, edits the goal,
  time passes, or a due timer fires. A disabled control delivers no event.
\<close>

datatype event = Submit | Stop | Change jsstring | Tick nat | Fire nat

fun dispatch :: "'e agent_lib \<Rightarrow> 'e page \<Rightarrow> event \<Rightarrow> 'e page" where
  "dispatch lib m Submit =
     (if submit_disabled (render_controls m) then m else handleSubmit lib m)"
| "dispatch lib m Stop =
     (if stop_disabled (render_controls m) then m else stopAgent m)"
| "dispatch lib m (Change s) =
     (if goal_disabled (render_controls m) then m else m\<lparr>goalInput := s\<rparr>)"
| "dispatch lib m (Tick d) = m\<lparr>clock := clock m + d\<rparr>"
| "dispatch lib m (Fire i) = fire lib i m"

definition exec :: "'e agent_lib \<Rightarrow> event list \<Rightarrow> 'e page \<Rightarrow> 'e page" where
  "exec lib evs m = foldl (dispatch lib) m evs"

text \<open>The three stop predicates of the loop, lines 101 and 104.\<close>

definition stop_pred :: "'e agent_lib \<Rightarrow> AgentState \<Rightarrow> bool" where
  "stop_pred lib s \<longleftrightarrow> isComplete s \<or> isStalled s \<or> MAX_ITERATIONS lib \<le> iteration s"

text \<open>\<open>stepAgent\<close> applied \<open>n\<close> times in a row, throwing as soon as one call throws.\<close>

fun stepN :: "'e agent_lib \<Rightarrow> nat \<Rightarrow> AgentState \<Rightarrow> 'e + AgentState" where
  "stepN lib 0 s = Inr s"
| "stepN lib (Suc n) s =
     (case stepN lib n s of Inl e \<Rightarrow> Inl e | Inr s' \<Rightarrow> stepAgent lib s')"

definition suspended :: "'e run \<Rightarrow> bool" where
  "suspended r \<longleftrightarrow> (case run_status r of AwaitSettle _ \<Rightarrow> True | AwaitStep _ \<Rightarrow> True | _ \<Rightarrow> False)"

text \<open>
  What an invocation of \<open>startAgent\<close> can be, whatever else happens on the page between
  its resumptions: it starts on a goal that is not blank, leaves the settle delay, and
  after each step delay it throws, goes on waiting, or returns. An invocation goes on only
  when the state just published satisfies no stop predicate; it may return after any step,
  since the loop condition reads a flag that other code writes.
\<close>

inductive invocation :: "'e agent_lib \<Rightarrow> 'e run \<Rightarrow> bool" for lib :: "'e agent_lib" where
  started:
    "\<not> blank g \<Longrightarrow>
     invocation lib \<lparr> goal_arg = g, currentState = initializeAgentState lib g,
       run_status = AwaitSettle due, pubs = [initializeAgentState lib g], calls = [] \<rparr>"
| settled:
    "invocation lib r \<Longrightarrow> run_status r = AwaitSettle due \<Longrightarrow>
     invocation lib (r\<lparr>run_status := AwaitStep due'\<rparr>)"
| threw:
    "invocation lib r \<Longrightarrow> run_status r = AwaitStep due \<Longrightarrow>
     stepAgent lib (currentState r) = Inl e \<Longrightarrow>
     invocation lib (r\<lparr>run_status := Rejected e, calls := calls r @ [currentState r]\<rparr>)"
| continued:
    "invocation lib r \<Longrightarrow> run_status r = AwaitStep due \<Longrightarrow>
     stepAgent lib (currentState r) = Inr next \<Longrightarrow> \<not> stop_pred lib next \<Longrightarrow>
     invocation lib (r\<lparr>currentState := next, pubs := pubs r @ [next],
       calls := calls r @ [currentState r], run_status := AwaitStep due'\<rparr>)"
| returned:
    "invocation lib r \<Longrightarrow> run_status r = AwaitStep due \<Longrightarrow>
     stepAgent lib (currentState r) = Inr next \<Longrightarrow>
     invocation lib (r\<lparr>currentState := next, pubs := pubs r @ [next],
       calls := calls r @ [currentState r], run_status := Returned\<rparr>)"

section \<open>Sample inputs\<close>

text \<open>
  A stand-in for the agent module, on which the model runs on concrete inputs: the
  initial state of a goal has iteration 0 and no flag set, a step adds one to the
  iteration, and the ceiling is 3.
\<close>

definition sample_state :: "jsstring \<Rightarrow> AgentState" where
  "sample_state g =
     \<lparr> goal = g, iteration = 0, tasks = [], assumptions = [], logs = 0,
       metrics = \<lparr> completionRate = 0, momentum = 0, blockedCount = 0, focus = js ''plan'' \<rparr>,
       isComplete = False, isStalled = False, resultSummary = None \<rparr>"

definition sample_lib :: "unit agent_lib" where
  "sample_lib =
     \<lparr> initializeAgentState = sample_state,
       stepAgent = (\<lambda>s. Inr (s\<lparr>iteration := iteration s + 1\<rparr>)),
       MAX_ITERATIONS = 3 \<rparr>"

text \<open>An array store with one log array, whose two entries arrive latest first.\<close>

definition sample_logs :: "AgentLog store" where
  "sample_logs =
     [[\<lparr>log_id = js ''b'', topic = js ''plan'', message = js ''second'', timestamp = 20\<rparr>,
       \<lparr>log_id = js ''a'', topic = js ''analysis'', message = js ''first'', timestamp = 10\<rparr>]]"

text \<open>The same module with an initial state that is already complete.\<close>

definition complete_at_start_lib :: "unit agent_lib" where
  "complete_at_start_lib =
     \<lparr> initializeAgentState = (\<lambda>g. (sample_state g)\<lparr>isComplete := True\<rparr>),
       stepAgent = (\<lambda>s. Inr (s\<lparr>iteration := iteration s + 1\<rparr>)),
       MAX_ITERATIONS = 3 \<rparr>"

text \<open>A module whose step succeeds once and throws from then on.\<close>

definition failing_lib :: "jsstring agent_lib" where
  "failing_lib =
     \<lparr> initializeAgentState = sample_state,
       stepAgent = (\<lambda>s. if iteration s = 0 then Inr (s\<lparr>iteration := 1\<rparr>)
                         else Inl (js ''step failed'')),
       MAX_ITERATIONS = 3 \<rparr>"

section \<open>Notions for the stop request\<close>

text \<open>An invocation that is still in its settle delay will raise the loop flag.\<close>

definition settling :: "'e run \<Rightarrow> bool" where
  "settling r \<longleftrightarrow> (case run_status r of AwaitSettle _ \<Rightarrow> True | _ \<Rightarrow> False)"

text \<open>
  \<open>one_more r r'\<close>: the invocation \<open>r\<close> has become \<open>r'\<close> by doing nothing, or by ending
  after at most one more call of \<open>stepAgent\<close> and at most one more published state.
\<close>

definition one_more :: "'e run \<Rightarrow> 'e run \<Rightarrow> bool" where
  "one_more r r' \<longleftrightarrow>
     r' = r \<or>
     (\<not> suspended r' \<and> length (calls r') \<le> Suc (length (calls r))
        \<and> length (pubs r') \<le> Suc (length (pubs r)))"

text \<open>The same module with a ceiling of 0.\<close>

definition zero_ceiling_lib :: "unit agent_lib" where
  "zero_ceiling_lib = sample_lib\<lparr>MAX_ITERATIONS := 0\<rparr>"

section \<open>Notions for a run on its own\<close>

text \<open>
  The events of a run that nothing interrupts: the goal is typed and submitted, the
  settle delay passes, and then \<open>n\<close> step delays pass, each timer firing when it is due.
\<close>

definition uninterrupted :: "jsstring \<Rightarrow> nat \<Rightarrow> event list" where
  "uninterrupted g n =
     Change g # Submit # Tick 150 # Fire 0 # concat (replicate n [Tick 650, Fire 0])"


section \<open>Notions for the running flag\<close>



section \<open>Strings\<close>

lemma unat_of_char16: "unat (of_char c :: 16 word) = of_char c"
proof -
  have "(of_char c :: nat) mod 256 < 256" by simp
  then have "(of_char c :: nat) < 256" by (simp only: of_char_mod_256)
  then have lt: "(of_char c :: nat) < 65536" by linarith
  have "(of_char c :: 16 word) = of_nat (of_char c)" by (simp add: of_nat_of_char)
  then have "unat (of_char c :: 16 word) = (of_char c :: nat) mod 2 ^ 16"
    by (simp add: unat_of_nat)
  with lt show ?thesis by simp
qed

lemma js_eq_iff: "js a = js b \<longleftrightarrow> a = b"
proof -
  have "inj (of_char :: char \<Rightarrow> 16 word)"
  proof (rule injI)
    fix c d :: char
    assume h: "(of_char c :: 16 word) = of_char d"
    then have "unat (of_char c :: 16 word) = unat (of_char d :: 16 word)" by simp
    then have "(of_char c :: nat) = of_char d" by (simp only: unat_of_char16)
    then show "c = d" by simp
  qed
  then show ?thesis unfolding js_def by (simp add: inj_map_eq_map)
qed

lemma trim_blank: "falsy_str (trim g) \<longleftrightarrow> blank g"
proof
  assume "blank g"
  then show "falsy_str (trim g)"
    by (auto simp: falsy_str_def trim_def blank_def list_all_iff dropWhile_eq_Nil_conv
          dest: set_dropWhileD)
next
  assume h: "falsy_str (trim g)"
  show "blank g"
  proof (rule ccontr)
    assume nb: "\<not> blank g"
    define ys where "ys = dropWhile is_js_space g"
    from nb have ne: "ys \<noteq> []" by (auto simp: ys_def blank_def list_all_iff)
    then have "\<not> is_js_space (hd ys)" unfolding ys_def by (rule hd_dropWhile)
    with ne have "\<exists>x\<in>set (rev ys). \<not> is_js_space x" by (cases ys) auto
    then have "dropWhile is_js_space (rev ys) \<noteq> []" by (simp add: dropWhile_eq_Nil_conv)
    with h show False by (simp add: falsy_str_def trim_def ys_def)
  qed
qed

lemma blank_trim: "blank (trim g) \<longleftrightarrow> blank g"
proof
  assume "blank g"
  then have "trim g = []" using trim_blank [of g] by (simp add: falsy_str_def)
  then show "blank (trim g)" by (simp add: blank_def)
next
  assume h: "blank (trim g)"
  show "blank g"
  proof (rule ccontr)
    assume nb: "\<not> blank g"
    then have ne: "trim g \<noteq> []" using trim_blank [of g] by (simp add: falsy_str_def)
    define zs where "zs = dropWhile is_js_space (rev (dropWhile is_js_space g))"
    have t: "trim g = rev zs" by (simp add: trim_def zs_def)
    with ne have "zs \<noteq> []" by simp
    then have "\<not> is_js_space (hd zs)" unfolding zs_def by (rule hd_dropWhile)
    moreover have "hd zs \<in> set (trim g)" using \<open>zs \<noteq> []\<close> t by simp
    ultimately show False using h by (auto simp: blank_def list_all_iff)
  qed
qed

lemma default_goal_not_blank: "\<not> blank (goalInput (init_page :: 'e page))"
  by (simp add: init_page_def blank_def js_def is_js_space_def)

section \<open>Formatting helpers are total\<close>

text \<open>
  C9: on every value of the task status and of the topic the label maps give a label, and
  on every value of the three enumerations the class helpers give the property of
  \<open>styles\<close> that the source names for it, \<open>pending\<close> and \<open>summary\<close> and \<open>low\<close> through the
  last branch. On any string whatever the class helpers return one of these properties,
  so no input is left without a result.
\<close>

theorem formatting_helpers_total:
  "statusLabels (status_str s) =
     Some (case s of Pending \<Rightarrow> js ''Pending'' | InProgress \<Rightarrow> js ''In Progress''
           | Completed \<Rightarrow> js ''Completed'' | Blocked \<Rightarrow> js ''Blocked'')
   \<and> topicLabels (topic_str t) =
     Some (case t of Analysis \<Rightarrow> js ''Analysis'' | Plan \<Rightarrow> js ''Planning''
           | Execution \<Rightarrow> js ''Execution'' | Reflection \<Rightarrow> js ''Reflection''
           | Summary \<Rightarrow> js ''Summary'')
   \<and> taskStatusClass styles (status_str s) =
     styles (case s of Pending \<Rightarrow> js ''taskStatusPending'' | InProgress \<Rightarrow> js ''taskStatusActive''
           | Completed \<Rightarrow> js ''taskStatusCompleted'' | Blocked \<Rightarrow> js ''taskStatusBlocked'')
   \<and> topicClass styles (topic_str t) =
     styles (case t of Analysis \<Rightarrow> js ''topicAnalysis'' | Plan \<Rightarrow> js ''topicPlan''
           | Execution \<Rightarrow> js ''topicExecution'' | Reflection \<Rightarrow> js ''topicReflection''
           | Summary \<Rightarrow> js ''topicSummary'')
   \<and> confidenceClass styles (confidence_str c) =
     styles (case c of Low \<Rightarrow> js ''confidenceLow'' | Medium \<Rightarrow> js ''confidenceMedium''
           | High \<Rightarrow> js ''confidenceHigh'')
   \<and> confidenceClass styles x \<in> set (map styles
        [js ''confidenceHigh'', js ''confidenceMedium'', js ''confidenceLow''])
   \<and> taskStatusClass styles y \<in> set (map styles
        [js ''taskStatusCompleted'', js ''taskStatusActive'', js ''taskStatusBlocked'',
         js ''taskStatusPending''])
   \<and> topicClass styles z \<in> set (map styles
        [js ''topicAnalysis'', js ''topicPlan'', js ''topicExecution'', js ''topicReflection'',
         js ''topicSummary''])"
proof -
  have "statusLabels (status_str s) =
     Some (case s of Pending \<Rightarrow> js ''Pending'' | InProgress \<Rightarrow> js ''In Progress''
           | Completed \<Rightarrow> js ''Completed'' | Blocked \<Rightarrow> js ''Blocked'')"
    by (cases s) (simp_all add: statusLabels_def js_eq_iff)
  moreover have "topicLabels (topic_str t) =
     Some (case t of Analysis \<Rightarrow> js ''Analysis'' | Plan \<Rightarrow> js ''Planning''
           | Execution \<Rightarrow> js ''Execution'' | Reflection \<Rightarrow> js ''Reflection''
           | Summary \<Rightarrow> js ''Summary'')"
    by (cases t) (simp_all add: topicLabels_def js_eq_iff)
  moreover have "taskStatusClass styles (status_str s) =
     styles (case s of Pending \<Rightarrow> js ''taskStatusPending'' | InProgress \<Rightarrow> js ''taskStatusActive''
           | Completed \<Rightarrow> js ''taskStatusCompleted'' | Blocked \<Rightarrow> js ''taskStatusBlocked'')"
    by (cases s) (simp_all add: taskStatusClass_def js_eq_iff)
  moreover have "topicClass styles (topic_str t) =
     styles (case t of Analysis \<Rightarrow> js ''topicAnalysis'' | Plan \<Rightarrow> js ''topicPlan''
           | Execution \<Rightarrow> js ''topicExecution'' | Reflection \<Rightarrow> js ''topicReflection''
           | Summary \<Rightarrow> js ''topicSummary'')"
    by (cases t) (simp_all add: topicClass_def js_eq_iff)
  moreover have "confidenceClass styles (confidence_str c) =
     styles (case c of Low \<Rightarrow> js ''confidenceLow'' | Medium \<Rightarrow> js ''confidenceMedium''
           | High \<Rightarrow> js ''confidenceHigh'')"
    by (cases c) (simp_all add: confidenceClass_def js_eq_iff)
  moreover have "confidenceClass styles x \<in> set (map styles
        [js ''confidenceHigh'', js ''confidenceMedium'', js ''confidenceLow''])"
    by (simp add: confidenceClass_def)
  moreover have "taskStatusClass styles y \<in> set (map styles
        [js ''taskStatusCompleted'', js ''taskStatusActive'', js ''taskStatusBlocked'',
         js ''taskStatusPending''])"
    by (simp add: taskStatusClass_def)
  moreover have "topicClass styles z \<in> set (map styles
        [js ''topicAnalysis'', js ''topicPlan'', js ''topicExecution'', js ''topicReflection'',
         js ''topicSummary''])"
    by (simp add: topicClass_def)
  ultimately show ?thesis by blast
qed

section \<open>Stopping\<close>

lemma stopAgent_twice: "stopAgent (stopAgent m) = stopAgent m"
  by (simp add: stopAgent_def)

text \<open>
  C10: \<open>stopAgent\<close> is idempotent. Called once or more in a row, in any state of the page,
  it leaves the loop flag and the running flag false and changes nothing else.
\<close>

theorem stopAgent_idempotent:
  "(stopAgent ^^ Suc n) m = stopAgent m
   \<and> \<not> loopRef (stopAgent m) \<and> \<not> isRunning (stopAgent m)
   \<and> goalInput (stopAgent m) = goalInput m \<and> agentState (stopAgent m) = agentState m
   \<and> clock (stopAgent m) = clock m \<and> runs (stopAgent m) = runs m"
proof -
  have "(stopAgent ^^ Suc n) m = stopAgent m"
    by (induction n) (simp_all add: stopAgent_twice)
  then show ?thesis by (simp add: stopAgent_def)
qed

section \<open>The ordered log feed\<close>

lemma mset_insert_by: "mset (insert_by cmp x xs) = add_mset x (mset xs)"
  by (induction xs) simp_all

lemma set_insert_by: "set (insert_by cmp x xs) = insert x (set xs)"
  by (induction xs) auto

lemma sorted_insert_by:
  "sorted (map timestamp xs) \<Longrightarrow> sorted (map timestamp (insert_by by_timestamp x xs))"
  by (induction xs) (auto simp: set_insert_by by_timestamp_def)

lemma mset_js_sort: "mset (js_sort cmp xs) = mset xs"
  unfolding js_sort_def by (induction xs) (simp_all add: mset_insert_by)

lemma sorted_js_sort: "sorted (map timestamp (js_sort by_timestamp xs))"
  unfolding js_sort_def by (induction xs) (simp_all add: sorted_insert_by)

text \<open>
  C6: for a state whose log array is in the store, the derived array is sorted by time
  stamp in non-decreasing order and is a permutation of the log array of the state, in
  whatever order that one is; every array that was in the store, the log array of the
  state among them, is as before. Without a state the derived array is empty.
\<close>

theorem orderedLogs_sorted_permutation:
  "(logs s < length h \<longrightarrow>
      sorted (map timestamp (fst (orderedLogs h (Some s)) ! snd (orderedLogs h (Some s))))
      \<and> mset (fst (orderedLogs h (Some s)) ! snd (orderedLogs h (Some s))) = mset (h ! logs s)
      \<and> take (length h) (fst (orderedLogs h (Some s))) = h
      \<and> fst (orderedLogs h (Some s)) ! logs s = h ! logs s)
   \<and> fst (orderedLogs h None) ! snd (orderedLogs h None) = []
   \<and> take (length h) (fst (orderedLogs h None)) = h"
proof -
  have sm: "orderedLogs h (Some s) = ((h @ [h ! logs s])[length h := js_sort by_timestamp (h ! logs s)], length h)"
    by (simp add: orderedLogs_def spread_def new_array_def array_sort_def)
  have nn: "orderedLogs h None = (h @ [[]], length h)"
    by (simp add: orderedLogs_def new_array_def)
  have "logs s < length h \<Longrightarrow> fst (orderedLogs h (Some s)) ! logs s = h ! logs s"
    by (simp add: sm nth_append)
  then show ?thesis
    by (simp add: sm nn sorted_js_sort mset_js_sort)
qed
theorem orderedLogs_sorted_permutation_witness:
  "logs (sample_state []) < length sample_logs
   \<and> map timestamp (fst (orderedLogs sample_logs (Some (sample_state []))) !
        snd (orderedLogs sample_logs (Some (sample_state [])))) = [10, 20]
   \<and> sorted (map timestamp (fst (orderedLogs sample_logs (Some (sample_state []))) !
        snd (orderedLogs sample_logs (Some (sample_state [])))))
   \<and> fst (orderedLogs sample_logs (Some (sample_state []))) ! logs (sample_state []) = sample_logs ! 0"
proof -
  have h: "logs (sample_state []) < length sample_logs"
    by (simp add: sample_state_def sample_logs_def)
  have v: "map timestamp (fst (orderedLogs sample_logs (Some (sample_state []))) !
        snd (orderedLogs sample_logs (Some (sample_state [])))) = [10, 20]"
    by (simp add: orderedLogs_def spread_def new_array_def array_sort_def js_sort_def
        by_timestamp_def sample_state_def sample_logs_def)
  have l: "logs (sample_state []) = 0" by (simp add: sample_state_def)
  show ?thesis
    using h v l orderedLogs_sorted_permutation [of "sample_state []" sample_logs] by simp
qed

section \<open>Every run of the page is an invocation\<close>

text \<open>
  Whatever the events, each entry of \<open>runs\<close> is in a state that the rules of
  \<open>invocation\<close> allow: the properties of a single run are then proved by induction on
  these rules.
\<close>

lemma list_all_update:
  "\<forall>r\<in>set xs. P r \<Longrightarrow> P r' \<Longrightarrow> \<forall>r\<in>set (xs[i := r']). P r"
  using set_update_subset_insert [of xs i r'] by auto

lemma runs_upd_run [simp]: "runs (upd_run i f m) = (runs m)[i := f (runs m ! i)]"
  by (simp add: upd_run_def)

lemma startAgent_invocations:
  assumes "\<forall>r\<in>set (runs m). invocation lib r"
  shows "\<forall>r\<in>set (runs (startAgent lib g m)). invocation lib r"
  using assms by (auto simp: startAgent_def trim_blank Let_def intro: invocation.started)

lemma after_settle_invocations:
  assumes "\<forall>r\<in>set (runs m). invocation lib r" "i < length (runs m)"
    "run_status (runs m ! i) = AwaitSettle due"
  shows "\<forall>r\<in>set (runs (after_settle i m)). invocation lib r"
proof -
  have "invocation lib (runs m ! i)" using assms by simp
  then have "invocation lib ((runs m ! i)\<lparr>run_status := AwaitStep (clock m + 650)\<rparr>)"
    using assms(3) by (rule invocation.settled)
  with assms(1) have "\<forall>r\<in>set ((runs m)[i := (runs m ! i)\<lparr>run_status :=
      AwaitStep (clock m + 650)\<rparr>]). invocation lib r"
    by (rule list_all_update)
  moreover have "runs (after_settle i m) =
      (runs m)[i := (runs m ! i)\<lparr>run_status := AwaitStep (clock m + 650)\<rparr>]"
    by (simp add: after_settle_def loop_test_def)
  ultimately show ?thesis by (simp only:)
qed

lemma runs_exit_loop [simp]:
  "runs (exit_loop i m) = (runs m)[i := (runs m ! i)\<lparr>run_status := Returned\<rparr>]"
  by (simp add: exit_loop_def)

lemma runs_loop_test [simp]:
  "runs (loop_test i m) =
     (runs m)[i := (runs m ! i)\<lparr>run_status :=
        if loopRef m then AwaitStep (clock m + 650) else Returned\<rparr>]"
  by (simp add: loop_test_def)

lemma runs_after_step_delay_Inl:
  "stepAgent lib (currentState (runs m ! i)) = Inl e \<Longrightarrow>
   runs (after_step_delay lib i m) =
     (runs m)[i := (runs m ! i)\<lparr>run_status := Rejected e,
        calls := calls (runs m ! i) @ [currentState (runs m ! i)]\<rparr>]"
  by (simp add: after_step_delay_def)

lemma runs_after_step_delay_Inr:
  "stepAgent lib (currentState (runs m ! i)) = Inr n \<Longrightarrow> i < length (runs m) \<Longrightarrow>
   runs (after_step_delay lib i m) =
     (runs m)[i := (runs m ! i)\<lparr>currentState := n, pubs := pubs (runs m ! i) @ [n],
        calls := calls (runs m ! i) @ [currentState (runs m ! i)],
        run_status := if stop_pred lib n \<or> \<not> loopRef m then Returned
                      else AwaitStep (clock m + 650)\<rparr>]"
  by (simp add: after_step_delay_def Let_def stop_pred_def upd_run_def)

lemma after_step_delay_invocations:
  assumes all: "\<forall>r\<in>set (runs m). invocation lib r" and i: "i < length (runs m)"
    and st: "run_status (runs m ! i) = AwaitStep due"
  shows "\<forall>r\<in>set (runs (after_step_delay lib i m)). invocation lib r"
proof -
  define r where "r = runs m ! i"
  have inv: "invocation lib r" using all i by (simp add: r_def)
  have st': "run_status r = AwaitStep due" using st by (simp add: r_def)
  show ?thesis
  proof (cases "stepAgent lib (currentState r)")
    case (Inl e)
    have "invocation lib (r\<lparr>run_status := Rejected e, calls := calls r @ [currentState r]\<rparr>)"
      using inv st' Inl by (rule invocation.threw)
    with all have "\<forall>x\<in>set ((runs m)[i := r\<lparr>run_status := Rejected e,
        calls := calls r @ [currentState r]\<rparr>]). invocation lib x"
      by (rule list_all_update)
    then show ?thesis
      using Inl unfolding r_def by (simp only: runs_after_step_delay_Inl)
  next
    case (Inr n)
    have eq: "runs (after_step_delay lib i m) =
     (runs m)[i := r\<lparr>currentState := n, pubs := pubs r @ [n],
        calls := calls r @ [currentState r],
        run_status := if stop_pred lib n \<or> \<not> loopRef m then Returned
                      else AwaitStep (clock m + 650)\<rparr>]"
      using Inr i unfolding r_def by (rule runs_after_step_delay_Inr)
    have "invocation lib (r\<lparr>currentState := n, pubs := pubs r @ [n],
        calls := calls r @ [currentState r],
        run_status := if stop_pred lib n \<or> \<not> loopRef m then Returned
                      else AwaitStep (clock m + 650)\<rparr>)"
    proof (cases "stop_pred lib n \<or> \<not> loopRef m")
      case True
      then show ?thesis
        using invocation.returned [OF inv st' Inr] by (simp only: if_True)
    next
      case False
      then have ns: "\<not> stop_pred lib n" by simp
      show ?thesis
        using invocation.continued [OF inv st' Inr ns, of "clock m + 650"] False
        by (simp only: if_False)
    qed
    with all show ?thesis unfolding eq by (rule list_all_update)
  qed
qed

lemma dispatch_invocations:
  assumes "\<forall>r\<in>set (runs m). invocation lib r"
  shows "\<forall>r\<in>set (runs (dispatch lib m ev)). invocation lib r"
proof (cases ev)
  case Submit
  then show ?thesis
    using assms startAgent_invocations [OF assms]
    by (simp add: handleSubmit_def Let_def)
next
  case Stop
  then show ?thesis using assms by (simp add: stopAgent_def)
next
  case (Change s)
  then show ?thesis using assms by simp
next
  case (Tick d)
  then show ?thesis using assms by simp
next
  case (Fire i)
  then show ?thesis
    using assms after_settle_invocations [OF assms] after_step_delay_invocations [OF assms]
    by (simp add: fire_def split: run_status.splits)
qed

lemma exec_snoc: "exec lib (evs @ [ev]) m = dispatch lib (exec lib evs m) ev"
  by (simp add: exec_def)

lemma exec_invocations: "\<forall>r\<in>set (runs (exec lib evs init_page)). invocation lib r"
proof (induction evs rule: rev_induct)
  case Nil
  then show ?case by (simp add: exec_def init_page_def)
next
  case (snoc ev evs)
  then show ?case unfolding exec_snoc by (rule dispatch_invocations)
qed

section \<open>Running the page on sample inputs\<close>

lemma exec_Cons: "exec lib (ev # evs) m = exec lib evs (dispatch lib m ev)"
  by (simp add: exec_def)

lemma exec_Nil: "exec lib [] m = m"
  by (simp add: exec_def)

lemma init_page_fields:
  "agentState (init_page :: 'e page) = None" "isRunning (init_page :: 'e page) = False"
  "loopRef (init_page :: 'e page) = False" "clock (init_page :: 'e page) = 0"
  "runs (init_page :: 'e page) = []"
  by (simp_all add: init_page_def)

lemma handleSubmit_starts:
  assumes "\<not> isRunning m" "\<not> blank (goalInput m)"
  shows "handleSubmit lib m =
     m\<lparr> loopRef := False,
        agentState := Some (initializeAgentState lib (trim (goalInput m))),
        runs := runs m @
          [\<lparr> goal_arg = trim (goalInput m),
             currentState = initializeAgentState lib (trim (goalInput m)),
             run_status = AwaitSettle (clock m + 150),
             pubs = [initializeAgentState lib (trim (goalInput m))], calls = [] \<rparr>] \<rparr>"
  using assms by (simp add: handleSubmit_def startAgent_def trim_blank blank_trim Let_def)

lemmas run_simps = init_page_fields
  exec_def handleSubmit_starts default_goal_not_blank render_controls_def
  fire_def after_settle_def loop_test_def upd_run_def after_step_delay_def exit_loop_def
  stopAgent_def Let_def


lemma sample_run_to_ceiling:
  "runs (exec sample_lib
      [Submit, Tick 150, Fire 0, Tick 650, Fire 0, Tick 650, Fire 0, Tick 650, Fire 0,
       Tick 650, Fire 0] init_page) =
     [\<lparr> goal_arg = trim (goalInput (init_page :: unit page)),
        currentState = (sample_state (trim (goalInput (init_page :: unit page))))\<lparr>iteration := 3\<rparr>,
        run_status = Returned,
        pubs = [sample_state (trim (goalInput (init_page :: unit page))),
                (sample_state (trim (goalInput (init_page :: unit page))))\<lparr>iteration := 1\<rparr>,
                (sample_state (trim (goalInput (init_page :: unit page))))\<lparr>iteration := 2\<rparr>,
                (sample_state (trim (goalInput (init_page :: unit page))))\<lparr>iteration := 3\<rparr>],
        calls = [sample_state (trim (goalInput (init_page :: unit page))),
                (sample_state (trim (goalInput (init_page :: unit page))))\<lparr>iteration := 1\<rparr>,
                (sample_state (trim (goalInput (init_page :: unit page))))\<lparr>iteration := 2\<rparr>] \<rparr>]"
  by (simp add: run_simps sample_lib_def sample_state_def)

lemma failing_run_before:
  "exec failing_lib [Submit, Tick 150, Fire 0, Tick 650, Fire 0, Tick 650] init_page =
     \<lparr> goalInput = goalInput (init_page :: jsstring page),
       agentState = Some ((sample_state (trim (goalInput (init_page :: jsstring page))))\<lparr>iteration := 1\<rparr>),
       isRunning = True, loopRef = True, clock = 1450,
       runs = [\<lparr> goal_arg = trim (goalInput (init_page :: jsstring page)),
        currentState = (sample_state (trim (goalInput (init_page :: jsstring page))))\<lparr>iteration := 1\<rparr>,
        run_status = AwaitStep 1450,
        pubs = [sample_state (trim (goalInput (init_page :: jsstring page))),
                (sample_state (trim (goalInput (init_page :: jsstring page))))\<lparr>iteration := 1\<rparr>],
        calls = [sample_state (trim (goalInput (init_page :: jsstring page)))] \<rparr>] \<rparr>"
  by (simp add: run_simps failing_lib_def sample_state_def)

text \<open>
  The guard of \<open>handleSubmit\<close> is the running flag, which an invocation raises only when
  it leaves its settle delay: a second submission within that delay starts a second
  invocation beside the first.
\<close>

lemma submit_during_settle_starts_second_run:
  "map run_status (runs (exec sample_lib [Submit, Tick 50, Submit] init_page)) =
     [AwaitSettle 150, AwaitSettle 200]"
  by (simp add: run_simps)

section \<open>What a run publishes\<close>


lemma invocation_last_pub:
  "invocation lib r \<Longrightarrow> pubs r \<noteq> [] \<and> last (pubs r) = currentState r"
  by (induction rule: invocation.induct) simp_all

lemma iterates_snoc:
  assumes old: "\<forall>k<length ps. stepN lib k s0 = Inr (ps ! k)"
    and ne: "ps \<noteq> []" and st: "stepAgent lib (last ps) = Inr n"
  shows "\<forall>k<length (ps @ [n]). stepN lib k s0 = Inr ((ps @ [n]) ! k)"
proof (intro allI impI)
  fix k
  assume "k < length (ps @ [n])"
  then consider "k < length ps" | "k = length ps" by fastforce
  then show "stepN lib k s0 = Inr ((ps @ [n]) ! k)"
  proof cases
    case 1
    then show ?thesis using old by (simp add: nth_append)
  next
    case 2
    from ne obtain j where j: "length ps = Suc j" by (cases ps) auto
    then have "ps ! j = last ps" using ne by (simp add: last_conv_nth)
    then have "stepN lib j s0 = Inr (last ps)" using old j by simp
    then have "stepN lib (Suc j) s0 = Inr n" using st by simp
    moreover have "(ps @ [n]) ! k = n" unfolding 2 by (rule nth_append_length)
    ultimately show ?thesis using 2 j by simp
  qed
qed

lemma invocation_iterates:
  "invocation lib r \<Longrightarrow>
   \<forall>k<length (pubs r). stepN lib k (initializeAgentState lib (goal_arg r)) = Inr (pubs r ! k)"
proof (induction rule: invocation.induct)
  case (continued r due n due')
  have "\<forall>k<length (pubs r @ [n]).
      stepN lib k (initializeAgentState lib (goal_arg r)) = Inr ((pubs r @ [n]) ! k)"
    using continued.IH invocation_last_pub [OF continued.hyps(1)] continued.hyps(3)
    by (intro iterates_snoc) simp_all
  then show ?case by simp
next
  case (returned r due n)
  have "\<forall>k<length (pubs r @ [n]).
      stepN lib k (initializeAgentState lib (goal_arg r)) = Inr ((pubs r @ [n]) ! k)"
    using returned.IH invocation_last_pub [OF returned.hyps(1)] returned.hyps(3)
    by (intro iterates_snoc) simp_all
  then show ?case by simp
qed simp_all

text \<open>The states passed to stepAgent are the published ones, in order.\<close>

lemma invocation_calls:
  "invocation lib r \<Longrightarrow>
   (case run_status r of
      Rejected e \<Rightarrow> calls r = pubs r
    | _ \<Rightarrow> calls r = butlast (pubs r))"
proof (induction rule: invocation.induct)
  case (threw r due e)
  then show ?case
    using invocation_last_pub [OF threw.hyps(1)] by (simp add: snoc_eq_iff_butlast)
next
  case (continued r due n due')
  then show ?case
    using invocation_last_pub [OF continued.hyps(1)] by (simp add: snoc_eq_iff_butlast)
next
  case (returned r due n)
  then show ?case
    using invocation_last_pub [OF returned.hyps(1)] by (simp add: snoc_eq_iff_butlast)
qed simp_all

lemma invocation_calls_nth:
  assumes "invocation lib r" "k < length (calls r)"
  shows "calls r ! k = pubs r ! k"
  using invocation_calls [OF assms(1)] assms(2)
  by (cases "run_status r") (simp_all add: nth_butlast)

lemma invocation_calls_length:
  assumes "invocation lib r"
  shows "length (pubs r) = (case run_status r of Rejected e \<Rightarrow> length (calls r) | _ \<Rightarrow> Suc (length (calls r)))"
  using invocation_calls [OF assms] invocation_last_pub [OF assms]
  by (cases "run_status r") (simp_all)

lemma invocation_first_pub:
  assumes "invocation lib r"
  shows "pubs r ! 0 = initializeAgentState lib (goal_arg r)"
proof -
  have "0 < length (pubs r)" using invocation_last_pub [OF assms] by simp
  then have "stepN lib 0 (initializeAgentState lib (goal_arg r)) = Inr (pubs r ! 0)"
    using invocation_iterates [OF assms] by blast
  then show ?thesis by simp
qed

lemma invocation_calls_le_pubs:
  assumes "invocation lib r"
  shows "length (pubs r) \<le> Suc (length (calls r))"
  using invocation_calls_length [OF assms] by (cases "run_status r") simp_all

text \<open>
  Publishing is the call of \<open>setAgentState\<close>: a submission that starts a run displays the
  initial state, and an iteration whose step returns displays the state returned.
\<close>

lemma submit_publishes_initial:
  assumes "\<not> isRunning m" "\<not> blank (goalInput m)"
  shows "agentState (handleSubmit lib m) = Some (initializeAgentState lib (trim (goalInput m)))
     \<and> pubs (last (runs (handleSubmit lib m))) = [initializeAgentState lib (trim (goalInput m))]
     \<and> calls (last (runs (handleSubmit lib m))) = []"
  by (simp add: handleSubmit_starts [OF assms])


section \<open>The iteration ceiling\<close>

lemma invocation_ceiling:
  assumes inc: "\<forall>s s'. stepAgent lib s = Inr s' \<longrightarrow> iteration s' = iteration s + 1"
    and init0: "\<forall>g. iteration (initializeAgentState lib g) = 0"
  shows "invocation lib r \<Longrightarrow>
     iteration (currentState r) = int (length (pubs r)) - 1 \<and>
     (case run_status r of
        Returned \<Rightarrow> iteration (currentState r) \<le> max 1 (MAX_ITERATIONS lib)
      | _ \<Rightarrow> iteration (currentState r) < max 1 (MAX_ITERATIONS lib))"
proof (induction rule: invocation.induct)
  case (started g due)
  then show ?case using init0 by simp
next
  case (settled r due due')
  then show ?case by simp
next
  case (threw r due e)
  then show ?case by simp
next
  case (continued r due n due')
  have "iteration n = iteration (currentState r) + 1" using inc continued.hyps(3) by simp
  moreover have "iteration n < MAX_ITERATIONS lib"
    using continued.hyps(4) by (simp add: stop_pred_def)
  ultimately show ?case using continued.IH by simp
next
  case (returned r due n)
  have "iteration n = iteration (currentState r) + 1" using inc returned.hyps(3) by simp
  then show ?case using returned.IH returned.hyps(2) by simp
qed

lemma invocation_calls_bounded:
  assumes inc: "\<forall>s s'. stepAgent lib s = Inr s' \<longrightarrow> iteration s' = iteration s + 1"
    and init0: "\<forall>g. iteration (initializeAgentState lib g) = 0"
    and inv: "invocation lib r"
  shows "int (length (calls r)) \<le> max 1 (MAX_ITERATIONS lib) \<and>
         (suspended r \<longrightarrow> int (length (calls r)) < max 1 (MAX_ITERATIONS lib))"
  using invocation_ceiling [OF inc init0 inv] invocation_calls_length [OF inv]
  by (cases "run_status r") (simp_all add: suspended_def)

section \<open>Stop predicates\<close>

lemma invocation_no_step_after_stop:
  "invocation lib r \<Longrightarrow>
     (\<forall>k<length (calls r). 0 < k \<longrightarrow> \<not> stop_pred lib (calls r ! k)) \<and>
     (suspended r \<and> calls r \<noteq> [] \<longrightarrow> \<not> stop_pred lib (currentState r))"
proof (induction rule: invocation.induct)
  case (started g due)
  then show ?case by simp
next
  case (settled r due due')
  then show ?case by (simp add: suspended_def)
next
  case (threw r due e)
  then show ?case by (auto simp: suspended_def nth_append)
next
  case (continued r due n due')
  then show ?case by (auto simp: suspended_def nth_append)
next
  case (returned r due n)
  then show ?case by (auto simp: suspended_def nth_append)
qed

text \<open>
  C3, as amended: the loop tests the stop predicates on the state that a step has just
  returned, never on the initial state. So \<open>stepAgent\<close> is never applied to a state that
  an earlier step returned and that satisfies a stop predicate, and of the published
  states of a run only the first and the last can satisfy one. When the initial state
  satisfies none, \<open>stepAgent\<close> is applied to no state that satisfies one, and only the
  last published state can.
\<close>

theorem no_step_on_stepped_stop_state:
  "\<forall>r\<in>set (runs (exec lib evs init_page)).
     (\<forall>k<length (calls r). 0 < k \<longrightarrow> \<not> stop_pred lib (calls r ! k))
     \<and> (\<forall>k. 0 < k \<and> Suc k < length (pubs r) \<longrightarrow> \<not> stop_pred lib (pubs r ! k))
     \<and> (\<not> stop_pred lib (initializeAgentState lib (goal_arg r)) \<longrightarrow>
          (\<forall>k<length (calls r). \<not> stop_pred lib (calls r ! k))
          \<and> (\<forall>k. Suc k < length (pubs r) \<longrightarrow> \<not> stop_pred lib (pubs r ! k)))"
proof
  fix r
  assume "r \<in> set (runs (exec lib evs init_page))"
  then have inv: "invocation lib r" using exec_invocations by blast
  have c: "\<forall>k<length (calls r). 0 < k \<longrightarrow> \<not> stop_pred lib (calls r ! k)"
    using invocation_no_step_after_stop [OF inv] by simp
  have lt: "k < length (calls r)" if "Suc k < length (pubs r)" for k
    using that invocation_calls_le_pubs [OF inv] by simp
  have p: "\<forall>k. 0 < k \<and> Suc k < length (pubs r) \<longrightarrow> \<not> stop_pred lib (pubs r ! k)"
  proof (intro allI impI)
    fix k
    assume k: "0 < k \<and> Suc k < length (pubs r)"
    then have "k < length (calls r)" using lt by simp
    then show "\<not> stop_pred lib (pubs r ! k)"
      using c k invocation_calls_nth [OF inv, of k] by auto
  qed
  have first: "calls r ! 0 = initializeAgentState lib (goal_arg r)" if "0 < length (calls r)"
    using that invocation_calls_nth [OF inv, of 0] invocation_first_pub [OF inv] by simp
  have c0: "\<forall>k<length (calls r). \<not> stop_pred lib (calls r ! k)"
    if "\<not> stop_pred lib (initializeAgentState lib (goal_arg r))"
  proof (intro allI impI)
    fix k
    assume "k < length (calls r)"
    then show "\<not> stop_pred lib (calls r ! k)"
      using c that first by (cases k) auto
  qed
  have p0: "\<forall>k. Suc k < length (pubs r) \<longrightarrow> \<not> stop_pred lib (pubs r ! k)"
    if "\<not> stop_pred lib (initializeAgentState lib (goal_arg r))"
  proof (intro allI impI)
    fix k
    assume "Suc k < length (pubs r)"
    then have "k < length (calls r)" by (rule lt)
    then show "\<not> stop_pred lib (pubs r ! k)"
      using c0 [OF that] invocation_calls_nth [OF inv, of k] by auto
  qed
  show "(\<forall>k<length (calls r). 0 < k \<longrightarrow> \<not> stop_pred lib (calls r ! k))
     \<and> (\<forall>k. 0 < k \<and> Suc k < length (pubs r) \<longrightarrow> \<not> stop_pred lib (pubs r ! k))
     \<and> (\<not> stop_pred lib (initializeAgentState lib (goal_arg r)) \<longrightarrow>
          (\<forall>k<length (calls r). \<not> stop_pred lib (calls r ! k))
          \<and> (\<forall>k. Suc k < length (pubs r) \<longrightarrow> \<not> stop_pred lib (pubs r ! k)))"
    using c p c0 p0 by blast
qed

theorem no_step_on_stepped_stop_state_witness:
  "\<not> stop_pred sample_lib (initializeAgentState sample_lib (trim (goalInput (init_page :: unit page))))
   \<and> \<not> stop_pred sample_lib (calls (runs (exec sample_lib
      [Submit, Tick 150, Fire 0, Tick 650, Fire 0, Tick 650, Fire 0, Tick 650, Fire 0,
       Tick 650, Fire 0] init_page) ! 0) ! 2)
   \<and> stop_pred sample_lib (last (pubs (runs (exec sample_lib
      [Submit, Tick 150, Fire 0, Tick 650, Fire 0, Tick 650, Fire 0, Tick 650, Fire 0,
       Tick 650, Fire 0] init_page) ! 0)))
   \<and> length (calls (runs (exec sample_lib
      [Submit, Tick 150, Fire 0, Tick 650, Fire 0, Tick 650, Fire 0, Tick 650, Fire 0,
       Tick 650, Fire 0] init_page) ! 0)) = 3"
proof -
  define r where "r = runs (exec sample_lib
      [Submit, Tick 150, Fire 0, Tick 650, Fire 0, Tick 650, Fire 0, Tick 650, Fire 0,
       Tick 650, Fire 0] init_page) ! 0"
  have mem: "r \<in> set (runs (exec sample_lib
      [Submit, Tick 150, Fire 0, Tick 650, Fire 0, Tick 650, Fire 0, Tick 650, Fire 0,
       Tick 650, Fire 0] init_page))"
    unfolding r_def sample_run_to_ceiling by simp
  have len: "length (calls r) = 3" unfolding r_def sample_run_to_ceiling by simp
  have n0: "\<not> stop_pred sample_lib
      (initializeAgentState sample_lib (trim (goalInput (init_page :: unit page))))"
    by (simp add: stop_pred_def sample_lib_def sample_state_def)
  have s3: "stop_pred sample_lib (last (pubs r))"
    unfolding r_def sample_run_to_ceiling
    by (simp add: stop_pred_def sample_lib_def sample_state_def)
  have "\<forall>k<length (calls r). 0 < k \<longrightarrow> \<not> stop_pred sample_lib (calls r ! k)"
    using no_step_on_stepped_stop_state [of sample_lib
      "[Submit, Tick 150, Fire 0, Tick 650, Fire 0, Tick 650, Fire 0, Tick 650, Fire 0,
        Tick 650, Fire 0]"] mem by blast
  then have "\<not> stop_pred sample_lib (calls r ! 2)" using len by simp
  then show ?thesis using n0 s3 len unfolding r_def by simp
qed

text \<open>
  C3 as stated fails when the initial state is already complete: the loop still applies
  \<open>stepAgent\<close> to it, and both published states of the run satisfy a stop predicate.
\<close>

theorem step_on_initial_stop_state_counterexample:
  "calls (runs (exec complete_at_start_lib [Submit, Tick 150, Fire 0, Tick 650, Fire 0]
       init_page) ! 0) =
     [initializeAgentState complete_at_start_lib (trim (goalInput (init_page :: unit page)))]
   \<and> stop_pred complete_at_start_lib
       (initializeAgentState complete_at_start_lib (trim (goalInput (init_page :: unit page))))
   \<and> list_all (stop_pred complete_at_start_lib)
       (pubs (runs (exec complete_at_start_lib [Submit, Tick 150, Fire 0, Tick 650, Fire 0]
          init_page) ! 0))
   \<and> length (pubs (runs (exec complete_at_start_lib [Submit, Tick 150, Fire 0, Tick 650, Fire 0]
          init_page) ! 0)) = 2"
  by (simp add: run_simps complete_at_start_lib_def sample_state_def stop_pred_def)

section \<open>An exception of the step function\<close>

lemma fire_runs_shape: "\<exists>r'. runs (fire lib j m) = (runs m)[j := r']"
proof (cases "j < length (runs m)")
  case False
  then have "runs (fire lib j m) = (runs m)[j := runs m ! j]" by (simp add: fire_def)
  then show ?thesis ..
next
  case True
  show ?thesis
  proof (cases "run_status (runs m ! j)")
    case (AwaitSettle due)
    then show ?thesis using True
      by (cases "due \<le> clock m") (auto simp: fire_def after_settle_def intro: exI [of _ "runs m ! j"])
  next
    case (AwaitStep due)
    show ?thesis
    proof (cases "due \<le> clock m")
      case False
      then show ?thesis using True AwaitStep
        by (auto simp: fire_def intro: exI [of _ "runs m ! j"])
    next
      case due: True
      show ?thesis
      proof (cases "stepAgent lib (currentState (runs m ! j))")
        case (Inl e)
        then show ?thesis using True AwaitStep due
          by (simp add: fire_def runs_after_step_delay_Inl) blast
      next
        case (Inr n)
        then show ?thesis using True AwaitStep due
          by (simp add: fire_def runs_after_step_delay_Inr) blast
      qed
    qed
  next
    case Returned
    then show ?thesis using True by (auto simp: fire_def intro: exI [of _ "runs m ! j"])
  next
    case (Rejected e)
    then show ?thesis using True by (auto simp: fire_def intro: exI [of _ "runs m ! j"])
  qed
qed

lemma ended_run_frozen_step:
  assumes i: "i < length (runs m)" and e: "\<not> suspended (runs m ! i)"
  shows "i < length (runs (dispatch lib m ev)) \<and> runs (dispatch lib m ev) ! i = runs m ! i"
proof (cases ev)
  case Submit
  then show ?thesis using i
    by (simp add: handleSubmit_def startAgent_def Let_def nth_append)
next
  case Stop
  then show ?thesis using i by (simp add: stopAgent_def)
next
  case (Change s)
  then show ?thesis using i by simp
next
  case (Tick d)
  then show ?thesis using i by simp
next
  case (Fire j)
  show ?thesis
  proof (cases "j = i")
    case True
    then have "fire lib j m = m" using e i
      by (cases "run_status (runs m ! i)") (simp_all add: fire_def suspended_def)
    then show ?thesis using Fire i by simp
  next
    case False
    obtain r' where "runs (fire lib j m) = (runs m)[j := r']" using fire_runs_shape by blast
    then show ?thesis using Fire i False by simp
  qed
qed

lemma ended_run_frozen:
  "i < length (runs m) \<Longrightarrow> \<not> suspended (runs m ! i) \<Longrightarrow>
   i < length (runs (exec lib evs m)) \<and> runs (exec lib evs m) ! i = runs m ! i"
proof (induction evs arbitrary: m)
  case Nil
  then show ?case by (simp add: exec_Nil)
next
  case (Cons ev evs)
  have s: "i < length (runs (dispatch lib m ev)) \<and> runs (dispatch lib m ev) ! i = runs m ! i"
    using Cons.prems by (rule ended_run_frozen_step)
  then have "\<not> suspended (runs (dispatch lib m ev) ! i)" using Cons.prems(2) by simp
  with s have "i < length (runs (exec lib evs (dispatch lib m ev))) \<and>
      runs (exec lib evs (dispatch lib m ev)) ! i = runs (dispatch lib m ev) ! i"
    using Cons.IH by blast
  then show ?case using s by (simp add: exec_Cons)
qed

text \<open>
  C7: when the timer of a run in its step delay fires and \<open>stepAgent\<close> throws, the run
  ends rejected with that error. Nothing after the call runs: no state is published, the
  displayed state stays, and the running flag and the loop flag keep their values, since
  the two lines after the loop are not reached. From then on no event changes the run,
  so it publishes nothing more.
\<close>

theorem step_exception_propagates:
  assumes i: "i < length (runs m)" and st: "run_status (runs m ! i) = AwaitStep due"
    and due: "due \<le> clock m" and thr: "stepAgent lib (currentState (runs m ! i)) = Inl e"
  shows "run_status (runs (fire lib i m) ! i) = Rejected e
     \<and> pubs (runs (fire lib i m) ! i) = pubs (runs m ! i)
     \<and> agentState (fire lib i m) = agentState m
     \<and> isRunning (fire lib i m) = isRunning m
     \<and> loopRef (fire lib i m) = loopRef m
     \<and> (\<forall>evs. runs (exec lib evs (fire lib i m)) ! i = runs (fire lib i m) ! i)"
proof -
  have f: "fire lib i m =
      upd_run i (\<lambda>r. r\<lparr>run_status := Rejected e, calls := calls r @ [currentState r]\<rparr>) m"
    using i st due thr by (simp add: fire_def after_step_delay_def)
  have a: "run_status (runs (fire lib i m) ! i) = Rejected e" using i by (simp add: f)
  have b: "pubs (runs (fire lib i m) ! i) = pubs (runs m ! i)" using i by (simp add: f)
  have c: "agentState (fire lib i m) = agentState m \<and> isRunning (fire lib i m) = isRunning m
     \<and> loopRef (fire lib i m) = loopRef m"
    by (simp add: f upd_run_def)
  have len: "i < length (runs (fire lib i m))" using i by (simp add: f)
  have ns: "\<not> suspended (runs (fire lib i m) ! i)" using a by (simp add: suspended_def)
  have d: "\<forall>evs. runs (exec lib evs (fire lib i m)) ! i = runs (fire lib i m) ! i"
    using ended_run_frozen [OF len ns] by blast
  show ?thesis using a b c d by blast
qed

theorem step_exception_propagates_witness:
  "run_status (runs (exec failing_lib
       [Submit, Tick 150, Fire 0, Tick 650, Fire 0, Tick 650, Fire 0] init_page) ! 0)
     = Rejected (js ''step failed'')
   \<and> length (pubs (runs (exec failing_lib
       [Submit, Tick 150, Fire 0, Tick 650, Fire 0, Tick 650, Fire 0] init_page) ! 0)) = 2
   \<and> isRunning (exec failing_lib
       [Submit, Tick 150, Fire 0, Tick 650, Fire 0, Tick 650, Fire 0] init_page)
   \<and> loopRef (exec failing_lib
       [Submit, Tick 150, Fire 0, Tick 650, Fire 0, Tick 650, Fire 0] init_page)"
proof -
  define m where "m = exec failing_lib [Submit, Tick 150, Fire 0, Tick 650, Fire 0, Tick 650] init_page"
  have i: "0 < length (runs m)" unfolding m_def failing_run_before by simp
  have st: "run_status (runs m ! 0) = AwaitStep 1450" unfolding m_def failing_run_before by simp
  have due: "1450 \<le> clock m" unfolding m_def failing_run_before by simp
  have thr: "stepAgent failing_lib (currentState (runs m ! 0)) = Inl (js ''step failed'')"
    unfolding m_def failing_run_before by (simp add: failing_lib_def sample_state_def)
  have e: "exec failing_lib [Submit, Tick 150, Fire 0, Tick 650, Fire 0, Tick 650, Fire 0] init_page
      = fire failing_lib 0 m"
    unfolding m_def
    using exec_snoc [of failing_lib "[Submit, Tick 150, Fire 0, Tick 650, Fire 0, Tick 650]" "Fire 0" init_page]
    by simp
  have p: "length (pubs (runs m ! 0)) = 2" "isRunning m" "loopRef m"
    unfolding m_def failing_run_before by simp_all
  show ?thesis
    using step_exception_propagates [OF i st due thr] p unfolding e by simp
qed

section \<open>The stop request\<close>

text \<open>
  With the loop flag down, a run whose step delay ends does its step and leaves the loop.
  The flag stays down under every event except the resumption of an invocation in its
  settle delay.
\<close>

lemma fire_with_flag_down:
  assumes lr: "\<not> loopRef m" and i: "i < length (runs m)"
    and st: "run_status (runs m ! i) = AwaitStep due" and due: "due \<le> clock m"
  shows "\<not> suspended (runs (fire lib i m) ! i)
     \<and> length (calls (runs (fire lib i m) ! i)) = Suc (length (calls (runs m ! i)))
     \<and> length (pubs (runs (fire lib i m) ! i)) \<le> Suc (length (pubs (runs m ! i)))
     \<and> \<not> loopRef (fire lib i m)"
proof (cases "stepAgent lib (currentState (runs m ! i))")
  case (Inl e)
  then show ?thesis using assms
    by (simp add: fire_def after_step_delay_def suspended_def upd_run_def)
next
  case (Inr n)
  then show ?thesis using assms
    by (simp add: fire_def after_step_delay_def suspended_def upd_run_def Let_def
        exit_loop_def loop_test_def)
qed

lemma flag_stays_down:
  assumes lr: "\<not> loopRef m"
    and ns: "\<forall>j due. ev = Fire j \<longrightarrow> j < length (runs m) \<longrightarrow> run_status (runs m ! j) \<noteq> AwaitSettle due"
  shows "\<not> loopRef (dispatch lib m ev)"
proof (cases ev)
  case Submit
  then show ?thesis using lr by (simp add: handleSubmit_def startAgent_def Let_def)
next
  case Stop
  then show ?thesis using lr by (simp add: stopAgent_def)
next
  case (Change s)
  then show ?thesis using lr by simp
next
  case (Tick d)
  then show ?thesis using lr by simp
next
  case (Fire j)
  show ?thesis
  proof (cases "j < length (runs m)")
    case False
    then show ?thesis using lr Fire by (simp add: fire_def)
  next
    case True
    show ?thesis
    proof (cases "run_status (runs m ! j)")
      case (AwaitSettle due)
      then show ?thesis using ns Fire True by blast
    next
      case (AwaitStep due)
      show ?thesis
      proof (cases "due \<le> clock m")
        case True
        then show ?thesis
          using fire_with_flag_down [OF lr \<open>j < length (runs m)\<close> AwaitStep True] Fire by simp
      next
        case False
        then show ?thesis using lr Fire AwaitStep \<open>j < length (runs m)\<close> by (simp add: fire_def)
      qed
    next
      case Returned
      then show ?thesis using lr Fire True by (simp add: fire_def)
    next
      case (Rejected e)
      then show ?thesis using lr Fire True by (simp add: fire_def)
    qed
  qed
qed

lemma fire_other: "k \<noteq> j \<Longrightarrow> runs (fire lib j m) ! k = runs m ! k"
proof -
  assume "k \<noteq> j"
  obtain r' where "runs (fire lib j m) = (runs m)[j := r']" using fire_runs_shape by blast
  then show ?thesis using \<open>k \<noteq> j\<close> by simp
qed

lemma fire_length: "length (runs (fire lib j m)) = length (runs m)"
proof -
  obtain r' where "runs (fire lib j m) = (runs m)[j := r']" using fire_runs_shape by blast
  then show ?thesis by simp
qed

lemma fire_idle:
  assumes "j < length (runs m) \<longrightarrow> \<not> suspended (runs m ! j)"
  shows "fire lib j m = m"
  using assms by (cases "run_status (runs m ! j)") (auto simp: fire_def suspended_def)

lemma fire_early:
  assumes "run_status (runs m ! j) = AwaitStep due" "\<not> due \<le> clock m"
  shows "fire lib j m = m"
  using assms by (simp add: fire_def)

lemma quiet_step:
  assumes lr: "\<not> loopRef m" and ns: "\<forall>r\<in>set (runs m). \<not> settling r" and ev: "ev \<noteq> Submit"
  shows "\<not> loopRef (dispatch lib m ev)
     \<and> length (runs (dispatch lib m ev)) = length (runs m)
     \<and> (\<forall>k<length (runs m).
          runs (dispatch lib m ev) ! k = runs m ! k \<or>
          (suspended (runs m ! k) \<and> one_more (runs m ! k) (runs (dispatch lib m ev) ! k)
           \<and> \<not> suspended (runs (dispatch lib m ev) ! k)))"
proof -
  have a: "\<not> loopRef (dispatch lib m ev)"
  proof (rule flag_stays_down [OF lr], intro allI impI)
    fix j due
    assume "ev = Fire j" "j < length (runs m)"
    then have "\<not> settling (runs m ! j)" using ns by simp
    then show "run_status (runs m ! j) \<noteq> AwaitSettle due" by (auto simp: settling_def)
  qed
  have b: "length (runs (dispatch lib m ev)) = length (runs m)"
    using ev by (cases ev) (simp_all add: stopAgent_def fire_length)
  have c: "runs (dispatch lib m ev) ! k = runs m ! k \<or>
          (suspended (runs m ! k) \<and> one_more (runs m ! k) (runs (dispatch lib m ev) ! k)
           \<and> \<not> suspended (runs (dispatch lib m ev) ! k))"
    if k: "k < length (runs m)" for k
  proof (cases ev)
    case Submit
    then show ?thesis using ev by simp
  next
    case Stop
    then show ?thesis by (simp add: stopAgent_def)
  next
    case (Change s)
    then show ?thesis by simp
  next
    case (Tick d)
    then show ?thesis by simp
  next
    case (Fire j)
    show ?thesis
    proof (cases "k = j")
      case False
      then show ?thesis using Fire by (simp add: fire_other)
    next
      case True
      have nset: "\<not> settling (runs m ! j)" using ns k True by simp
      show ?thesis
      proof (cases "run_status (runs m ! j)")
        case (AwaitSettle due)
        then show ?thesis using nset by (simp add: settling_def)
      next
        case (AwaitStep due)
        show ?thesis
        proof (cases "due \<le> clock m")
          case False
          then show ?thesis using Fire AwaitStep by (simp add: fire_early)
        next
          case due: True
          have "j < length (runs m)" using k True by simp
          from fire_with_flag_down [OF lr this AwaitStep due, of lib]
          show ?thesis using Fire True AwaitStep
            by (simp add: one_more_def suspended_def)
        qed
      next
        case Returned
        then have "fire lib j m = m" by (intro fire_idle) (simp add: suspended_def)
        then show ?thesis using Fire by simp
      next
        case (Rejected e)
        then have "fire lib j m = m" by (intro fire_idle) (simp add: suspended_def)
        then show ?thesis using Fire by simp
      qed
    qed
  qed
  show ?thesis using a b c by blast
qed

lemma quiet_keeps_unsettling:
  assumes lr: "\<not> loopRef m" and ns: "\<forall>r\<in>set (runs m). \<not> settling r" and ev: "ev \<noteq> Submit"
  shows "\<forall>r\<in>set (runs (dispatch lib m ev)). \<not> settling r"
proof
  fix r
  assume "r \<in> set (runs (dispatch lib m ev))"
  then obtain k where k: "k < length (runs (dispatch lib m ev))" "r = runs (dispatch lib m ev) ! k"
    by (auto simp: in_set_conv_nth)
  from quiet_step [OF lr ns ev, of lib] k
  have kl: "k < length (runs m)"
    and d: "r = runs m ! k \<or> \<not> suspended r" by auto
  from d show "\<not> settling r"
  proof
    assume "r = runs m ! k"
    then show ?thesis using ns kl by simp
  next
    assume "\<not> suspended r"
    then show ?thesis by (cases "run_status r") (simp_all add: settling_def suspended_def)
  qed
qed

lemma one_more_trans_ended:
  assumes "one_more r r'" "r'' = r' \<or> (suspended r' \<and> one_more r' r'' \<and> \<not> suspended r'')"
  shows "one_more r r''"
  using assms by (auto simp: one_more_def)

lemma quiet_exec:
  "\<not> loopRef m \<Longrightarrow> \<forall>r\<in>set (runs m). \<not> settling r \<Longrightarrow> Submit \<notin> set evs \<Longrightarrow>
   \<not> loopRef (exec lib evs m)
   \<and> (\<forall>r\<in>set (runs (exec lib evs m)). \<not> settling r)
   \<and> length (runs (exec lib evs m)) = length (runs m)
   \<and> (\<forall>k<length (runs m). one_more (runs m ! k) (runs (exec lib evs m) ! k))"
proof (induction evs rule: rev_induct)
  case Nil
  then show ?case by (simp add: exec_Nil one_more_def)
next
  case (snoc ev evs)
  define m' where "m' = exec lib evs m"
  have ih: "\<not> loopRef m'" "\<forall>r\<in>set (runs m'). \<not> settling r"
    "length (runs m') = length (runs m)"
    "\<forall>k<length (runs m). one_more (runs m ! k) (runs m' ! k)"
    using snoc unfolding m'_def by simp_all
  have ev: "ev \<noteq> Submit" using snoc.prems(3) by auto
  note st = quiet_step [OF ih(1) ih(2) ev, of lib]
  have a: "\<not> loopRef (dispatch lib m' ev)" using st by simp
  have b: "\<forall>r\<in>set (runs (dispatch lib m' ev)). \<not> settling r"
    using ih(1) ih(2) ev by (rule quiet_keeps_unsettling)
  have c: "length (runs (dispatch lib m' ev)) = length (runs m)" using st ih(3) by simp
  have d: "one_more (runs m ! k) (runs (dispatch lib m' ev) ! k)" if "k < length (runs m)" for k
  proof (rule one_more_trans_ended)
    show "one_more (runs m ! k) (runs m' ! k)" using ih(4) that by simp
    show "runs (dispatch lib m' ev) ! k = runs m' ! k \<or>
          (suspended (runs m' ! k) \<and> one_more (runs m' ! k) (runs (dispatch lib m' ev) ! k)
           \<and> \<not> suspended (runs (dispatch lib m' ev) ! k))"
      using st that ih(3) by simp
  qed
  show ?case unfolding exec_snoc m'_def [symmetric] using a b c d by blast
qed

text \<open>
  After \<open>stopAgent\<close>, when no invocation is in its settle delay and the form is not
  submitted again, every run does nothing more or ends after at most one more step and
  one more published state.
\<close>

lemma stop_ends_run_without_relaunch:
  assumes ns: "\<forall>r\<in>set (runs m). \<not> settling r" and ev: "Submit \<notin> set evs"
    and k: "k < length (runs m)"
  shows "\<not> loopRef (exec lib evs (stopAgent m))
     \<and> one_more (runs m ! k) (runs (exec lib evs (stopAgent m)) ! k)"
proof -
  have lr: "\<not> loopRef (stopAgent m)" by (simp add: stopAgent_def)
  have r: "runs (stopAgent m) = runs m" by (simp add: stopAgent_def)
  have ns': "\<forall>r\<in>set (runs (stopAgent m)). \<not> settling r" using ns by (simp only: r)
  show ?thesis using quiet_exec [OF lr ns' ev, of lib] k by (simp add: r)
qed

text \<open>
  C4: a stop request is meant to end the run after the iteration in flight. The page
  does not keep to it when the form is submitted again before that iteration ends. In the
  events below the first run leaves its settle delay at 150 ms and waits until 800 ms; Stop
  is clicked at 200 ms and the form is submitted at 250 ms; the second run raises the
  loop flag at 400 ms. At 800 ms the first run does its step, finds the flag up and goes on
  waiting; at 1450 ms it calls \<open>stepAgent\<close> a second time after the stop and publishes
  again, and it is still waiting for more.
\<close>

theorem stopped_run_steps_on_after_relaunch:
  "calls (runs (exec sample_lib [Submit, Tick 150, Fire 0, Tick 50, Stop] init_page) ! 0) = []
   \<and> \<not> loopRef (exec sample_lib [Submit, Tick 150, Fire 0, Tick 50, Stop] init_page)
   \<and> run_status (runs (exec sample_lib [Submit, Tick 150, Fire 0, Tick 50, Stop] init_page) ! 0)
       = AwaitStep 800
   \<and> length (calls (runs (exec sample_lib
       [Submit, Tick 150, Fire 0, Tick 50, Stop,
        Tick 50, Submit, Tick 150, Fire 1,
        Tick 400, Fire 0, Tick 250, Fire 1, Tick 400, Fire 0] init_page) ! 0)) = 2
   \<and> run_status (runs (exec sample_lib
       [Submit, Tick 150, Fire 0, Tick 50, Stop,
        Tick 50, Submit, Tick 150, Fire 1,
        Tick 400, Fire 0, Tick 250, Fire 1, Tick 400, Fire 0] init_page) ! 0) = AwaitStep 2100
   \<and> map iteration (pubs (runs (exec sample_lib
       [Submit, Tick 150, Fire 0, Tick 50, Stop,
        Tick 50, Submit, Tick 150, Fire 1,
        Tick 400, Fire 0, Tick 250, Fire 1, Tick 400, Fire 0] init_page) ! 0)) = [0, 1, 2]
   \<and> clock (exec sample_lib
       [Submit, Tick 150, Fire 0, Tick 50, Stop,
        Tick 50, Submit, Tick 150, Fire 1,
        Tick 400, Fire 0, Tick 250, Fire 1, Tick 400, Fire 0] init_page) = 1450"
  by (simp add: run_simps sample_lib_def sample_state_def)

section \<open>A run on its own\<close>

lemma exec_append: "exec lib (xs @ ys) m = exec lib ys (exec lib xs m)"
  by (simp add: exec_def)

lemma concat_replicate_snoc: "concat (replicate (Suc n) xs) = concat (replicate n xs) @ xs"
  by (induction n) simp_all

lemma uninterrupted_Suc: "uninterrupted g (Suc n) = uninterrupted g n @ [Tick 650, Fire 0]"
  unfolding uninterrupted_def by (simp only: concat_replicate_snoc append_Cons)

lemma uninterrupted_start:
  assumes "\<not> blank g"
  shows "exec lib (uninterrupted g 0) init_page =
     \<lparr> goalInput = g, agentState = Some (initializeAgentState lib (trim g)),
       isRunning = True, loopRef = True, clock = 150,
       runs = [\<lparr> goal_arg = trim g, currentState = initializeAgentState lib (trim g),
                run_status = AwaitStep 800,
                pubs = [initializeAgentState lib (trim g)], calls = [] \<rparr>] \<rparr>"
  using assms
  by (simp add: uninterrupted_def exec_def render_controls_def init_page_fields
      handleSubmit_starts fire_def after_settle_def loop_test_def upd_run_def init_page_def)






lemma clock_fire: "clock (fire lib i m) = clock m"
proof (cases "i < length (runs m)")
  case False
  then show ?thesis by (simp add: fire_def)
next
  case True
  show ?thesis
  proof (cases "run_status (runs m ! i)")
    case (AwaitSettle due)
    then show ?thesis using True
      by (simp add: fire_def after_settle_def loop_test_def upd_run_def)
  next
    case (AwaitStep due)
    then show ?thesis using True
      by (cases "stepAgent lib (currentState (runs m ! i))")
        (simp_all add: fire_def after_step_delay_def Let_def loop_test_def exit_loop_def upd_run_def)
  next
    case Returned
    then show ?thesis using True by (simp add: fire_def)
  next
    case (Rejected e)
    then show ?thesis using True by (simp add: fire_def)
  qed
qed

lemma fire_due_step:
  assumes i: "i < length (runs m)" and st: "run_status (runs m ! i) = AwaitStep due"
    and due: "due \<le> clock m"
  shows "\<not> suspended (runs (fire lib i m) ! i) \<or>
     (run_status (runs (fire lib i m) ! i) = AwaitStep (clock m + 650) \<and>
      length (calls (runs (fire lib i m) ! i)) = Suc (length (calls (runs m ! i))))"
proof (cases "stepAgent lib (currentState (runs m ! i))")
  case (Inl e)
  then show ?thesis using assms
    by (simp add: fire_def runs_after_step_delay_Inl suspended_def)
next
  case (Inr n)
  then show ?thesis using assms
    by (simp add: fire_def runs_after_step_delay_Inr suspended_def)
qed

lemma uninterrupted_progress:
  assumes nb: "\<not> blank g"
  shows "length (runs (exec lib (uninterrupted g n) init_page)) = 1 \<and>
     (suspended (runs (exec lib (uninterrupted g n) init_page) ! 0) \<longrightarrow>
        run_status (runs (exec lib (uninterrupted g n) init_page) ! 0) =
          AwaitStep (clock (exec lib (uninterrupted g n) init_page) + 650)
        \<and> length (calls (runs (exec lib (uninterrupted g n) init_page) ! 0)) = n)"
proof (induction n)
  case 0
  show ?case by (simp add: uninterrupted_start [OF nb])
next
  case (Suc n)
  define m where "m = exec lib (uninterrupted g n) init_page"
  define mt where "mt = m\<lparr>clock := clock m + 650\<rparr>"
  have e: "exec lib (uninterrupted g (Suc n)) init_page = fire lib 0 mt"
    by (simp add: uninterrupted_Suc exec_append m_def mt_def exec_def)
  have len: "length (runs mt) = 1" using Suc by (simp add: m_def mt_def)
  have l1: "length (runs (fire lib 0 mt)) = 1" using len by (simp add: fire_length)
  show ?case
  proof (cases "suspended (runs m ! 0)")
    case False
    then have "fire lib 0 mt = mt" by (intro fire_idle) (simp add: mt_def)
    then show ?thesis using False len unfolding e by (simp add: mt_def)
  next
    case True
    then have st: "run_status (runs mt ! 0) = AwaitStep (clock m + 650)"
      and c: "length (calls (runs mt ! 0)) = n"
      using Suc by (simp_all add: m_def mt_def)
    have due: "clock m + 650 \<le> clock mt" by (simp add: mt_def)
    have i: "0 < length (runs mt)" using len by simp
    from fire_due_step [OF i st due, of lib]
    show ?thesis unfolding e using l1 c by (auto simp: clock_fire)
  qed
qed

lemma ship_goal: "\<not> blank (js ''Ship feature X'')" "trim (js ''Ship feature X'') = js ''Ship feature X''"
  by (simp_all add: blank_def trim_def js_def is_js_space_def)

section \<open>What a run publishes, and what the page displays\<close>




section \<open>The bound on the calls of the step function\<close>

text \<open>
  C2, as amended: let every call of \<open>stepAgent\<close> that returns add exactly one to the
  iteration, and let every initial state have iteration 0. The loop tests the ceiling
  after the step, so it always makes one call: whatever happens on the page, and whether
  or not a completion or stall flag is ever set, no run calls \<open>stepAgent\<close> more often than
  the larger of 1 and \<open>MAX_ITERATIONS\<close>, which is \<open>MAX_ITERATIONS\<close> itself for a ceiling of at
  least 1, and a run that is still waiting has called it fewer times than that. A run
  that nothing interrupts has left its loop once that many step delays have passed.
\<close>

theorem step_calls_bounded_by_ceiling:
  assumes inc: "\<forall>s s'. stepAgent lib s = Inr s' \<longrightarrow> iteration s' = iteration s + 1"
    and init0: "\<forall>g. iteration (initializeAgentState lib g) = 0"
  shows "(\<forall>r\<in>set (runs (exec lib evs init_page)).
        int (length (calls r)) \<le> max 1 (MAX_ITERATIONS lib)
        \<and> (suspended r \<longrightarrow> int (length (calls r)) < max 1 (MAX_ITERATIONS lib))
        \<and> (1 \<le> MAX_ITERATIONS lib \<longrightarrow> int (length (calls r)) \<le> MAX_ITERATIONS lib))
     \<and> (\<forall>g. \<not> blank g \<longrightarrow>
          \<not> suspended (runs (exec lib
              (uninterrupted g (nat (max 1 (MAX_ITERATIONS lib)))) init_page) ! 0))"
proof (intro conjI ballI allI impI)
  fix r
  assume "r \<in> set (runs (exec lib evs init_page))"
  then have inv: "invocation lib r" using exec_invocations by blast
  note b = invocation_calls_bounded [OF inc init0 inv]
  show "int (length (calls r)) \<le> max 1 (MAX_ITERATIONS lib)" using b by simp
  show "suspended r \<Longrightarrow> int (length (calls r)) < max 1 (MAX_ITERATIONS lib)" using b by simp
  show "1 \<le> MAX_ITERATIONS lib \<Longrightarrow> int (length (calls r)) \<le> MAX_ITERATIONS lib"
    using b by simp
next
  fix g :: jsstring
  assume nb: "\<not> blank g"
  define N where "N = nat (max 1 (MAX_ITERATIONS lib))"
  define m where "m = exec lib (uninterrupted g N) init_page"
  have len: "length (runs m) = 1"
    and pr: "suspended (runs m ! 0) \<longrightarrow> length (calls (runs m ! 0)) = N"
    using uninterrupted_progress [OF nb, of lib N] by (simp_all add: m_def)
  have "runs m ! 0 \<in> set (runs m)" using len by simp
  then have inv: "invocation lib (runs m ! 0)" using exec_invocations unfolding m_def by blast
  have "suspended (runs m ! 0) \<longrightarrow>
      int (length (calls (runs m ! 0))) < max 1 (MAX_ITERATIONS lib)"
    using invocation_calls_bounded [OF inc init0 inv] by simp
  moreover have "int N = max 1 (MAX_ITERATIONS lib)" by (simp add: N_def)
  ultimately have "\<not> suspended (runs m ! 0)" using pr by auto
  then show "\<not> suspended (runs (exec lib
      (uninterrupted g (nat (max 1 (MAX_ITERATIONS lib)))) init_page) ! 0)"
    by (simp add: m_def N_def)
qed

theorem step_calls_bounded_by_ceiling_witness:
  "length (calls (runs (exec sample_lib
      [Submit, Tick 150, Fire 0, Tick 650, Fire 0, Tick 650, Fire 0, Tick 650, Fire 0,
       Tick 650, Fire 0] init_page) ! 0)) = 3
   \<and> MAX_ITERATIONS sample_lib = 3
   \<and> run_status (runs (exec sample_lib
      [Submit, Tick 150, Fire 0, Tick 650, Fire 0, Tick 650, Fire 0, Tick 650, Fire 0,
       Tick 650, Fire 0] init_page) ! 0) = Returned
   \<and> \<not> suspended (runs (exec sample_lib (uninterrupted (js ''Ship feature X'') 3) init_page) ! 0)"
proof -
  have inc: "\<forall>s s'. stepAgent sample_lib s = Inr s' \<longrightarrow> iteration s' = iteration s + 1"
    by (auto simp: sample_lib_def)
  have init0: "\<forall>g. iteration (initializeAgentState sample_lib g) = 0"
    by (simp add: sample_lib_def sample_state_def)
  have n: "nat (max 1 (MAX_ITERATIONS sample_lib)) = 3" by (simp add: sample_lib_def)
  note th = step_calls_bounded_by_ceiling [OF inc init0, of
      "[Submit, Tick 150, Fire 0, Tick 650, Fire 0, Tick 650, Fire 0, Tick 650, Fire 0,
        Tick 650, Fire 0]"]
  from th have "\<not> suspended (runs (exec sample_lib
      (uninterrupted (js ''Ship feature X'') (nat (max 1 (MAX_ITERATIONS sample_lib)))) init_page) ! 0)"
    using ship_goal(1) by blast
  then have a: "\<not> suspended (runs (exec sample_lib
      (uninterrupted (js ''Ship feature X'') 3) init_page) ! 0)"
    unfolding n .
  have b: "length (calls (runs (exec sample_lib
      [Submit, Tick 150, Fire 0, Tick 650, Fire 0, Tick 650, Fire 0, Tick 650, Fire 0,
       Tick 650, Fire 0] init_page) ! 0)) = 3
   \<and> MAX_ITERATIONS sample_lib = 3
   \<and> run_status (runs (exec sample_lib
      [Submit, Tick 150, Fire 0, Tick 650, Fire 0, Tick 650, Fire 0, Tick 650, Fire 0,
       Tick 650, Fire 0] init_page) ! 0) = Returned"
    unfolding sample_run_to_ceiling by (simp add: sample_lib_def)
  show ?thesis using a b by blast
qed

text \<open>
  C2 as stated fails for a ceiling of 0: the preconditions hold, and the run calls
  \<open>stepAgent\<close> once before it tests the ceiling and returns.
\<close>

theorem step_beyond_zero_ceiling_counterexample:
  "stepAgent zero_ceiling_lib = stepAgent sample_lib
   \<and> initializeAgentState zero_ceiling_lib = sample_state
   \<and> MAX_ITERATIONS zero_ceiling_lib = 0
   \<and> length (calls (runs (exec zero_ceiling_lib [Submit, Tick 150, Fire 0, Tick 650, Fire 0]
        init_page) ! 0)) = 1
   \<and> run_status (runs (exec zero_ceiling_lib [Submit, Tick 150, Fire 0, Tick 650, Fire 0]
        init_page) ! 0) = Returned"
  by (simp add: run_simps zero_ceiling_lib_def sample_lib_def sample_state_def)

section \<open>Submissions that start nothing\<close>






section \<open>Controls\<close>








end
